theory Spec2Isabelle
  imports Complex_Main
begin

section \<open>Strings\<close>

text \<open>
  A Python \<open>str\<close> is modelled as a \<^typ>\<open>string\<close>: a list of characters, each read as
  the code point of the same number (U+0000 to U+00FF). The string operations of the
  standard library that \<open>website.py\<close> calls are written out below as list functions.
\<close>

text \<open>\<open>str.isspace\<close> on one character: the white space that \<open>str.strip()\<close> removes
  and that \<open>\s\<close> matches in a regular expression.\<close>

definition is_space :: "char \<Rightarrow> bool" where
  "is_space c =
     (let n = (of_char c :: nat)
      in (9 \<le> n \<and> n \<le> 13) \<or> (28 \<le> n \<and> n \<le> 32) \<or> n = 133 \<or> n = 160)"

text \<open>\<open>str.lower\<close> on one character: the upper-case letters of ASCII and Latin-1
  move up by 32.\<close>

definition lower_char :: "char \<Rightarrow> char" where
  "lower_char c =
     (let n = (of_char c :: nat)
      in if (65 \<le> n \<and> n \<le> 90) \<or> (192 \<le> n \<and> n \<le> 222 \<and> n \<noteq> 215)
         then char_of (n + 32) else c)"

definition lower :: "string \<Rightarrow> string" where
  "lower s = map lower_char s"

text \<open>\<open>s.strip()\<close> and \<open>s.strip("_")\<close>.\<close>

definition strip_by :: "(char \<Rightarrow> bool) \<Rightarrow> string \<Rightarrow> string" where
  "strip_by p s = rev (dropWhile p (rev (dropWhile p s)))"

definition strip :: "string \<Rightarrow> string" where
  "strip s = strip_by is_space s"

text \<open>\<open>os.path.basename\<close> (the POSIX one): what follows the last \<open>/\<close>.\<close>

definition basename :: "string \<Rightarrow> string" where
  "basename s = rev (takeWhile (\<lambda>c. c \<noteq> CHR ''/'') (rev s))"

text \<open>\<open>s.startswith(p)\<close>, \<open>s.endswith(p)\<close> and \<open>p in s\<close>.\<close>

definition startswith :: "string \<Rightarrow> string \<Rightarrow> bool" where
  "startswith s p = (take (length p) s = p)"

definition endswith :: "string \<Rightarrow> string \<Rightarrow> bool" where
  "endswith s p = (length p \<le> length s \<and> drop (length s - length p) s = p)"

fun contains :: "string \<Rightarrow> string \<Rightarrow> bool" where
  "contains p [] = (p = [])"
| "contains p (c # cs) = (startswith (c # cs) p \<or> contains p cs)"

text \<open>What \<open>p in s\<close> means: \<open>p\<close> is a contiguous part of \<open>s\<close>.\<close>

definition occurs_in :: "string \<Rightarrow> string \<Rightarrow> bool" where
  "occurs_in p s = (\<exists>xs ys. s = xs @ p @ ys)"

text \<open>\<open>s[:-k]\<close> for a positive \<open>k\<close>.\<close>

definition drop_last :: "nat \<Rightarrow> string \<Rightarrow> string" where
  "drop_last k s = take (length s - k) s"

text \<open>\<open>s.replace("__", "_")\<close>: the occurrences are replaced from the left, without
  overlap.\<close>

fun replace_uu :: "string \<Rightarrow> string" where
  "replace_uu (a # b # cs) =
     (if a = CHR ''_'' \<and> b = CHR ''_'' then CHR ''_'' # replace_uu cs
      else a # replace_uu (b # cs))"
| "replace_uu cs = cs"

lemma length_replace_uu_le: "length (replace_uu s) \<le> length s"
  by (induction s rule: replace_uu.induct) auto

lemma length_replace_uu_less:
  "contains ''__'' s \<Longrightarrow> length (replace_uu s) < length s"
proof (induction s rule: replace_uu.induct)
  case (1 a b cs)
  show ?case
  proof (cases "a = CHR ''_'' \<and> b = CHR ''_''")
    case True
    have "length (replace_uu cs) \<le> length cs" by (rule length_replace_uu_le)
    with True show ?thesis by simp
  next
    case False
    with 1 show ?thesis by (auto simp: startswith_def)
  qed
qed (auto simp: startswith_def)

text \<open>\<open>while "__" in s: s = s.replace("__", "_")\<close>\<close>

function collapse_uu :: "string \<Rightarrow> string" where
  "collapse_uu s = (if contains ''__'' s then collapse_uu (replace_uu s) else s)"
  by pat_completeness auto
termination
  by (relation "measure length") (auto simp: length_replace_uu_less)

declare collapse_uu.simps [simp del]

section \<open>Identifier canonicalizer\<close>

text \<open>\<open>_extract_ev_tag\<close>: the loop over the three literals is unrolled.\<close>

definition extract_ev_tag :: "string \<Rightarrow> string" where
  "extract_ev_tag s =
     (if s = [] then []
      else if contains ''ev-00'' s then ''ev-00''
      else if contains ''ev-25'' s then ''ev-25''
      else if contains ''ev-50'' s then ''ev-50''
      else [])"

text \<open>The two extensions and the \<open>_points\<close> suffix, each tested on the lowered string
  and cut from the string itself.\<close>

definition strip_suffix_ci :: "string \<Rightarrow> string \<Rightarrow> string" where
  "strip_suffix_ci suf s = (if endswith (lower s) suf then drop_last (length suf) s else s)"

text \<open>The loop over \<open>_ev-00\<close>, \<open>_ev-25\<close>, \<open>_ev-50\<close> with its \<open>break\<close>.\<close>

fun strip_first_tag :: "string list \<Rightarrow> string \<Rightarrow> string" where
  "strip_first_tag [] s = s"
| "strip_first_tag (tag # tags) s =
     (if endswith (lower s) tag then drop_last (length tag) s else strip_first_tag tags s)"

text \<open>
  \<open>re.sub(r"^(?:rank\s*)?r[123]\s*[:_\-]+", "", s, flags=re.IGNORECASE)\<close>.
  \<open>match_r123\<close> matches \<open>r[123]\s*[:_\-]+\<close> at the head of a string and returns what
  follows the match; both starred parts are greedy and what follows each cannot match
  a character of it, so the match is the longest one. \<open>strip_rank_prefix\<close> tries the
  optional group first, then the pattern without it, as the regular expression engine does.
\<close>

definition is_sep :: "char \<Rightarrow> bool" where
  "is_sep c = (c = CHR '':'' \<or> c = CHR ''_'' \<or> c = CHR ''-'')"

definition is_r :: "char \<Rightarrow> bool" where
  "is_r c = (c = CHR ''r'' \<or> c = CHR ''R'')"

definition is_123 :: "char \<Rightarrow> bool" where
  "is_123 c = (c = CHR ''1'' \<or> c = CHR ''2'' \<or> c = CHR ''3'')"

fun match_r123 :: "string \<Rightarrow> string option" where
  "match_r123 (c # d # rest) =
     (if is_r c \<and> is_123 d
      then (case dropWhile is_space rest of
              [] \<Rightarrow> None
            | e # t \<Rightarrow> if is_sep e then Some (dropWhile is_sep t) else None)
      else None)"
| "match_r123 _ = None"

definition match_rank_group :: "string \<Rightarrow> string option" where
  "match_rank_group s =
     (if lower (take 4 s) = ''rank'' then match_r123 (dropWhile is_space (drop 4 s))
      else None)"

definition strip_rank_prefix :: "string \<Rightarrow> string" where
  "strip_rank_prefix s =
     (case match_rank_group s of
        Some t \<Rightarrow> t
      | None \<Rightarrow> (case match_r123 s of Some t \<Rightarrow> t | None \<Rightarrow> s))"

definition space_to_underscore :: "string \<Rightarrow> string" where
  "space_to_underscore s = map (\<lambda>c. if c = CHR '' '' then CHR ''_'' else c) s"

definition is_underscore :: "char \<Rightarrow> bool" where
  "is_underscore c = (c = CHR ''_'')"

definition tidy :: "string \<Rightarrow> string" where
  "tidy s = strip_by is_underscore (collapse_uu (space_to_underscore s))"

definition strip_suffixes :: "string \<Rightarrow> string" where
  "strip_suffixes s =
     strip_first_tag [''_ev-00'', ''_ev-25'', ''_ev-50'']
       (strip_suffix_ci ''_points'' (strip_suffix_ci ''.json'' (strip_suffix_ci ''.gz'' s)))"

definition normalize_id_and_ev :: "string \<Rightarrow> string \<times> string" where
  "normalize_id_and_ev s0 =
     (let s = basename (strip s0)
      in (tidy (strip_rank_prefix (strip_suffixes s)), extract_ev_tag s))"

section \<open>Facts about the string operations\<close>

lemma collapse_uu_id: "\<not> contains ''__'' s \<Longrightarrow> collapse_uu s = s"
  by (simp add: collapse_uu.simps)

lemma startswith_iff: "startswith s p \<longleftrightarrow> (\<exists>ys. s = p @ ys)"
proof
  assume "startswith s p"
  then have "s = p @ drop (length p) s"
    by (metis append_take_drop_id startswith_def)
  then show "\<exists>ys. s = p @ ys" ..
next
  assume "\<exists>ys. s = p @ ys"
  then show "startswith s p" by (auto simp: startswith_def)
qed

lemma contains_iff_occurs: "contains p s \<longleftrightarrow> occurs_in p s"
proof (induction s)
  case Nil
  show ?case by (auto simp: occurs_in_def)
next
  case (Cons c cs)
  show ?case
  proof
    assume "contains p (c # cs)"
    then consider "startswith (c # cs) p" | "contains p cs" by auto
    then show "occurs_in p (c # cs)"
    proof cases
      case 1
      then obtain ys where "c # cs = p @ ys" by (auto simp: startswith_iff)
      then have "c # cs = [] @ p @ ys" by simp
      then show ?thesis unfolding occurs_in_def by blast
    next
      case 2
      with Cons obtain xs ys where "cs = xs @ p @ ys" by (auto simp: occurs_in_def)
      then have "c # cs = (c # xs) @ p @ ys" by simp
      then show ?thesis unfolding occurs_in_def by blast
    qed
  next
    assume "occurs_in p (c # cs)"
    then obtain xs ys where eq: "c # cs = xs @ p @ ys" by (auto simp: occurs_in_def)
    show "contains p (c # cs)"
    proof (cases xs)
      case Nil
      with eq have "startswith (c # cs) p" by (auto simp: startswith_iff)
      then show ?thesis by simp
    next
      case (Cons x xs')
      with eq have "cs = xs' @ p @ ys" by simp
      then have "occurs_in p cs" unfolding occurs_in_def by blast
      with Cons.IH show ?thesis by simp
    qed
  qed
qed

lemma occurs_in_dropWhile: "occurs_in p (dropWhile q s) \<Longrightarrow> occurs_in p s"
proof -
  assume "occurs_in p (dropWhile q s)"
  then obtain xs ys where "dropWhile q s = xs @ p @ ys" by (auto simp: occurs_in_def)
  then have "s = (takeWhile q s @ xs) @ p @ ys"
    by (metis append.assoc takeWhile_dropWhile_id)
  then show ?thesis unfolding occurs_in_def by blast
qed

lemma occurs_in_rev: "occurs_in p (rev s) \<longleftrightarrow> occurs_in (rev p) s"
proof -
  have a: "occurs_in p (rev s) \<Longrightarrow> occurs_in (rev p) s" for p s
  proof -
    assume "occurs_in p (rev s)"
    then obtain xs ys where "rev s = xs @ p @ ys" by (auto simp: occurs_in_def)
    then have "s = rev ys @ rev p @ rev xs"
      by (metis append.assoc rev_append rev_rev_ident)
    then show ?thesis unfolding occurs_in_def by blast
  qed
  show ?thesis using a [of p s] a [of "rev p" "rev s"] by auto
qed

lemma occurs_in_strip_by: "occurs_in p (strip_by q s) \<Longrightarrow> occurs_in p s"
  unfolding strip_by_def
  by (metis occurs_in_dropWhile occurs_in_rev rev_rev_ident)

lemma set_strip_by: "set (strip_by q s) \<subseteq> set s"
  unfolding strip_by_def by (auto dest!: set_dropWhileD)

lemma strip_by_idem: "strip_by q (strip_by q s) = strip_by q s"
proof -
  define t where "t = dropWhile q s"
  define u where "u = rev (dropWhile q (rev t))"
  have u: "strip_by q s = u" by (simp add: strip_by_def t_def u_def)
  have pre: "t = u @ rev (takeWhile q (rev t))"
    unfolding u_def by (metis rev_append rev_rev_ident takeWhile_dropWhile_id)
  have "dropWhile q u = u"
  proof (cases u)
    case Nil
    then show ?thesis by simp
  next
    case (Cons a v)
    with pre obtain w where w: "t = a # w" by (cases t) auto
    then have "t \<noteq> []" and "hd t = a" by simp_all
    then have "\<not> q a" unfolding t_def by (metis hd_dropWhile)
    with Cons show ?thesis by simp
  qed
  then have "strip_by q u = rev (dropWhile q (rev u))" by (simp add: strip_by_def)
  also have "\<dots> = u" by (simp add: u_def)
  finally show ?thesis by (simp add: u)
qed

lemma set_replace_uu: "set (replace_uu s) \<subseteq> set s"
  by (induction s rule: replace_uu.induct) auto

lemma set_collapse_uu: "set (collapse_uu s) \<subseteq> set s"
proof (induction s rule: collapse_uu.induct)
  case (1 s)
  show ?case
  proof (cases "contains ''__'' s")
    case True
    with 1 have "set (collapse_uu (replace_uu s)) \<subseteq> set (replace_uu s)" by simp
    with set_replace_uu [of s] True show ?thesis by (subst collapse_uu.simps) auto
  next
    case False
    then show ?thesis by (simp add: collapse_uu_id)
  qed
qed

lemma collapse_uu_free: "\<not> contains ''__'' (collapse_uu s)"
proof (induction s rule: collapse_uu.induct)
  case (1 s)
  show ?case
  proof (cases "contains ''__'' s")
    case True
    with 1 show ?thesis by (subst collapse_uu.simps) simp
  next
    case False
    then show ?thesis by (simp add: collapse_uu_id)
  qed
qed

section \<open>Canonicalizer: the worked example\<close>

text \<open>
  C5: canonicalizing \<open>R2: Artist_Name_ev-25_points.json\<close> gives the base id
  \<open>Artist_Name\<close> and the exposure tag \<open>ev-25\<close>.
\<close>

theorem canonicalize_example:
  "normalize_id_and_ev ''R2: Artist_Name_ev-25_points.json'' = (''Artist_Name'', ''ev-25'')"
  by code_simp

section \<open>The rank prefix\<close>

text \<open>
  The prefix that the regular expression removes, in words: optionally the word
  \<open>rank\<close> (in any case) and white space; then the letter \<open>r\<close> or \<open>R\<close>; one digit
  among 1, 2, 3; white space, possibly none; one or more of \<open>:\<close>, \<open>_\<close>, \<open>-\<close>.
\<close>

definition rank_prefix :: "string \<Rightarrow> bool" where
  "rank_prefix p =
     (\<exists>g r d ws seps.
        p = g @ [r, d] @ ws @ seps \<and>
        (g = [] \<or> (\<exists>k sp. g = k @ sp \<and> lower k = ''rank'' \<and> list_all is_space sp)) \<and>
        is_r r \<and> is_123 d \<and> list_all is_space ws \<and> seps \<noteq> [] \<and> list_all is_sep seps)"

lemma is_sep_not_space: "is_sep c \<Longrightarrow> \<not> is_space c"
  by (auto simp: is_sep_def is_space_def)

lemma is_r_not_space: "is_r c \<Longrightarrow> \<not> is_space c"
  by (auto simp: is_r_def is_space_def)

lemma is_123_not_a: "is_123 c \<Longrightarrow> lower_char c \<noteq> CHR ''a''"
  by (auto simp: is_123_def lower_char_def)

lemma dropWhile_all_then: "list_all q xs \<Longrightarrow> dropWhile q (xs @ ys) = dropWhile q ys"
  by (induction xs) auto

lemma match_r123_complete:
  assumes "is_r r" "is_123 d" "list_all is_space ws" "seps \<noteq> []" "list_all is_sep seps"
  shows "match_r123 (r # d # ws @ seps @ t) = Some (dropWhile is_sep t)"
proof -
  from assms(4) obtain e seps' where seps: "seps = e # seps'" by (cases seps) auto
  with assms(5) have e: "is_sep e" and rest: "list_all is_sep seps'" by auto
  have "dropWhile is_space (ws @ seps @ t) = dropWhile is_space (seps @ t)"
    using assms(3) by (rule dropWhile_all_then)
  also have "\<dots> = e # seps' @ t" using e by (simp add: seps is_sep_not_space)
  finally have "dropWhile is_space (ws @ seps @ t) = e # seps' @ t" .
  moreover have "dropWhile is_sep (seps' @ t) = dropWhile is_sep t"
    using rest by (rule dropWhile_all_then)
  ultimately show ?thesis using assms(1,2) e by simp
qed

lemma match_r123_sound:
  assumes "match_r123 s = Some t"
  shows "\<exists>r d ws seps. s = [r, d] @ ws @ seps @ t \<and> is_r r \<and> is_123 d \<and>
           list_all is_space ws \<and> seps \<noteq> [] \<and> list_all is_sep seps"
proof -
  from assms obtain r d rest where s: "s = r # d # rest"
    by (cases s rule: match_r123.cases) auto
  with assms have rd: "is_r r" "is_123 d" by (auto split: if_splits)
  with assms s obtain e u where du: "dropWhile is_space rest = e # u"
    and e: "is_sep e" and t: "t = dropWhile is_sep u"
    by (auto split: if_splits list.splits)
  define ws where "ws = takeWhile is_space rest"
  define seps where "seps = e # takeWhile is_sep u"
  have "rest = ws @ e # u" unfolding ws_def by (metis du takeWhile_dropWhile_id)
  also have "u = takeWhile is_sep u @ t" by (simp add: t)
  finally have "rest = ws @ seps @ t" by (simp add: seps_def)
  moreover have "list_all is_space ws" by (simp add: ws_def list_all_iff) (metis set_takeWhileD)
  moreover have "list_all is_sep seps"
    using e by (simp add: seps_def list_all_iff) (metis set_takeWhileD)
  moreover have "seps \<noteq> []" by (simp add: seps_def)
  ultimately show ?thesis using s rd by auto
qed

lemma lower_rank_length:
  assumes "lower k = ''rank''"
  shows "length k = 4"
proof -
  have "length (lower k) = length ''rank''" by (simp only: assms)
  then show ?thesis by (simp add: lower_def)
qed

lemma rank_prefixI:
  assumes "g = [] \<or> (\<exists>k sp. g = k @ sp \<and> lower k = ''rank'' \<and> list_all is_space sp)"
    and "is_r r" "is_123 d" "list_all is_space ws" "seps \<noteq> []" "list_all is_sep seps"
  shows "rank_prefix (g @ [r, d] @ ws @ seps)"
  unfolding rank_prefix_def using assms by blast

lemma strip_rank_prefix_complete:
  assumes "rank_prefix p"
  shows "strip_rank_prefix (p @ t) = dropWhile is_sep t"
proof -
  from assms obtain g r d ws seps where p: "p = g @ [r, d] @ ws @ seps"
    and g: "g = [] \<or> (\<exists>k sp. g = k @ sp \<and> lower k = ''rank'' \<and> list_all is_space sp)"
    and rd: "is_r r" "is_123 d" and ws: "list_all is_space ws"
    and seps: "seps \<noteq> []" "list_all is_sep seps"
    unfolding rank_prefix_def by blast
  have core: "match_r123 (r # d # ws @ seps @ t) = Some (dropWhile is_sep t)"
    using rd ws seps by (rule match_r123_complete)
  from g show ?thesis
  proof
    assume "g = []"
    with p have eq: "p @ t = r # d # ws @ seps @ t" by simp
    have "take 4 (p @ t) = r # d # take 2 (ws @ seps @ t)" by (simp add: eq)
    then have "lower (take 4 (p @ t)) = lower_char r # lower_char d # lower (take 2 (ws @ seps @ t))"
      by (simp add: lower_def)
    then have "lower (take 4 (p @ t)) \<noteq> ''rank''"
      using is_123_not_a [OF rd(2)] by simp
    then have "match_rank_group (p @ t) = None" by (simp add: match_rank_group_def)
    then show ?thesis using core by (simp add: strip_rank_prefix_def eq)
  next
    assume "\<exists>k sp. g = k @ sp \<and> lower k = ''rank'' \<and> list_all is_space sp"
    then obtain k sp where gk: "g = k @ sp" and k: "lower k = ''rank''"
      and sp: "list_all is_space sp" by blast
    have len: "length k = 4" using k by (rule lower_rank_length)
    have eq: "p @ t = k @ sp @ r # d # ws @ seps @ t" by (simp add: p gk)
    have "take 4 (p @ t) = k" by (simp add: eq len)
    moreover have "drop 4 (p @ t) = sp @ r # d # ws @ seps @ t" by (simp add: eq len)
    moreover have "dropWhile is_space (sp @ r # d # ws @ seps @ t) = r # d # ws @ seps @ t"
      using sp rd(1) by (simp add: dropWhile_all_then is_r_not_space)
    ultimately have "match_rank_group (p @ t) = Some (dropWhile is_sep t)"
      using k core by (simp add: match_rank_group_def)
    then show ?thesis by (simp add: strip_rank_prefix_def)
  qed
qed

lemma strip_rank_prefix_sound:
  assumes "match_rank_group s = Some t \<or> match_r123 s = Some t"
  shows "\<exists>p. s = p @ t \<and> rank_prefix p"
  using assms
proof
  assume "match_r123 s = Some t"
  from match_r123_sound [OF this] obtain r d ws seps where
    "s = [r, d] @ ws @ seps @ t" "is_r r" "is_123 d" "list_all is_space ws"
    "seps \<noteq> []" "list_all is_sep seps" by blast
  then have "s = ([] @ [r, d] @ ws @ seps) @ t" and "rank_prefix ([] @ [r, d] @ ws @ seps)"
    by (simp, intro rank_prefixI) simp_all
  then show ?thesis by blast
next
  assume a: "match_rank_group s = Some t"
  define k where "k = take 4 s"
  define sp where "sp = takeWhile is_space (drop 4 s)"
  from a have k: "lower k = ''rank''"
    and m: "match_r123 (dropWhile is_space (drop 4 s)) = Some t"
    by (auto simp: match_rank_group_def k_def split: if_splits)
  from match_r123_sound [OF m] obtain r d ws seps where
    eq: "dropWhile is_space (drop 4 s) = [r, d] @ ws @ seps @ t" and
    rest: "is_r r" "is_123 d" "list_all is_space ws" "seps \<noteq> []" "list_all is_sep seps"
    by blast
  have "s = k @ drop 4 s" by (simp add: k_def)
  also have "drop 4 s = sp @ dropWhile is_space (drop 4 s)" by (simp add: sp_def)
  finally have s: "s = ((k @ sp) @ [r, d] @ ws @ seps) @ t" by (simp add: eq)
  have "list_all is_space sp" by (simp add: sp_def list_all_iff) (metis set_takeWhileD)
  with k have "(k @ sp) = [] \<or> (\<exists>k' sp'. (k @ sp) = k' @ sp' \<and> lower k' = ''rank'' \<and> list_all is_space sp')"
    by blast
  then have "rank_prefix ((k @ sp) @ [r, d] @ ws @ seps)"
    using rest by (rule rank_prefixI)
  with s show ?thesis by blast
qed

lemma rank_prefix_nonempty: "rank_prefix p \<Longrightarrow> p \<noteq> []"
  unfolding rank_prefix_def by auto

text \<open>
  C6, amended: the letter \<open>r\<close> is required before the digit. Whenever a string starts
  with a rank prefix, the canonicalizer's substitution removes it together with every
  separator that follows; a string of which no prefix is a rank prefix is left unchanged.
\<close>

theorem rank_prefix_stripped:
  "(rank_prefix p \<longrightarrow> strip_rank_prefix (p @ t) = dropWhile is_sep t) \<and>
   ((\<forall>p t. s = p @ t \<longrightarrow> \<not> rank_prefix p) \<longrightarrow> strip_rank_prefix s = s)"
proof (intro conjI impI)
  assume "rank_prefix p"
  then show "strip_rank_prefix (p @ t) = dropWhile is_sep t"
    by (rule strip_rank_prefix_complete)
next
  assume none: "\<forall>p t. s = p @ t \<longrightarrow> \<not> rank_prefix p"
  have "match_rank_group s = None"
  proof (cases "match_rank_group s")
    case (Some t)
    then show ?thesis using strip_rank_prefix_sound [of s t] none by blast
  qed simp
  moreover have "match_r123 s = None"
  proof (cases "match_r123 s")
    case (Some t)
    then show ?thesis using strip_rank_prefix_sound [of s t] none by blast
  qed simp
  ultimately show "strip_rank_prefix s = s" by (simp add: strip_rank_prefix_def)
qed

theorem rank_prefix_stripped_witness:
  "rank_prefix ''R2_'' \<and> strip_rank_prefix (''R2_'' @ ''paintingname'') = ''paintingname'' \<and>
   rank_prefix ''rank r3-'' \<and> strip_rank_prefix (''rank r3-'' @ ''paintingname'') = ''paintingname'' \<and>
   \<not> (\<exists>p t. ''rank 3-paintingname'' = p @ t \<and> rank_prefix p) \<and>
   strip_rank_prefix ''rank 3-paintingname'' = ''rank 3-paintingname''"
proof -
  have a: "rank_prefix ''R2_''"
    using rank_prefixI [of "[]" "CHR ''R''" "CHR ''2''" "[]" "''_''"]
    by (simp add: is_r_def is_123_def is_sep_def)
  have "''rank '' = ''rank'' @ '' '' \<and> lower ''rank'' = ''rank'' \<and> list_all is_space '' ''"
    by code_simp
  then have g: "''rank '' = [] \<or> (\<exists>k sp. ''rank '' = k @ sp \<and> lower k = ''rank'' \<and> list_all is_space sp)"
    by blast
  have b: "rank_prefix ''rank r3-''"
    using rank_prefixI [OF g, of "CHR ''r''" "CHR ''3''" "[]" "''-''"]
    by (simp add: is_r_def is_123_def is_sep_def)
  have d: "dropWhile is_sep ''paintingname'' = ''paintingname''" by code_simp
  have a': "strip_rank_prefix (''R2_'' @ ''paintingname'') = ''paintingname''"
    using rank_prefix_stripped [of "''R2_''" "''paintingname''"] a d by simp
  have b': "strip_rank_prefix (''rank r3-'' @ ''paintingname'') = ''paintingname''"
    using rank_prefix_stripped [of "''rank r3-''" "''paintingname''"] b d by simp
  have same: "strip_rank_prefix ''rank 3-paintingname'' = ''rank 3-paintingname''" by code_simp
  have c: "\<forall>p t. ''rank 3-paintingname'' = p @ t \<longrightarrow> \<not> rank_prefix p"
  proof (intro allI impI notI)
    fix p t
    assume eq: "''rank 3-paintingname'' = p @ t" and rp: "rank_prefix p"
    from rank_prefix_stripped [of p t] rp
    have "strip_rank_prefix (p @ t) = dropWhile is_sep t" by blast
    with same eq have "p @ t = dropWhile is_sep t" by simp
    then have "length (p @ t) \<le> length t" by (metis length_dropWhile_le)
    then have "p = []" by simp
    with rank_prefix_nonempty [OF rp] show False by simp
  qed
  have c': "strip_rank_prefix ''rank 3-paintingname'' = ''rank 3-paintingname''"
    using rank_prefix_stripped [of _ _ "''rank 3-paintingname''"] c by blast
  from a a' b b' c c' show ?thesis by blast
qed

theorem rank_prefix_counterexample:
  "strip_rank_prefix ''rank 3-paintingname'' = ''rank 3-paintingname'' \<and>
   normalize_id_and_ev ''rank 3-paintingname'' = (''rank_3-paintingname'', [])"
  by code_simp

section \<open>The exposure tag\<close>

text \<open>
  C7, amended: the exposure tag that the canonicalizer returns is found by a substring
  search in the final path segment of the trimmed input, not in the whole input: it is
  the first of \<open>ev-00\<close>, \<open>ev-25\<close>, \<open>ev-50\<close>, in that order, that occurs in that
  segment, and the empty tag when none occurs there.
\<close>

theorem ev_tag_of_last_segment:
  "snd (normalize_id_and_ev s) =
     (let b = basename (strip s)
      in if occurs_in ''ev-00'' b then ''ev-00''
         else if occurs_in ''ev-25'' b then ''ev-25''
         else if occurs_in ''ev-50'' b then ''ev-50''
         else [])"
proof -
  have "\<not> occurs_in p []" if "p \<noteq> []" for p :: string
    using that by (auto simp: occurs_in_def)
  then show ?thesis
    by (auto simp: normalize_id_and_ev_def extract_ev_tag_def Let_def contains_iff_occurs)
qed

text \<open>
  The tag \<open>ev-25\<close> occurs in \<open>ev-25/foo.json\<close>, in a directory part; the
  canonicalizer returns the empty tag.
\<close>

theorem ev_tag_counterexample:
  "occurs_in ''ev-25'' ''ev-25/foo.json'' \<and> normalize_id_and_ev ''ev-25/foo.json'' = (''foo'', [])"
proof -
  have "contains ''ev-25'' ''ev-25/foo.json''" by code_simp
  moreover have "normalize_id_and_ev ''ev-25/foo.json'' = (''foo'', [])" by code_simp
  ultimately show ?thesis by (simp only: contains_iff_occurs)
qed

section \<open>Re-applying the canonicalizer\<close>

lemma set_match_r123: "match_r123 s = Some t \<Longrightarrow> set t \<subseteq> set s"
  using match_r123_sound [of s t] by auto

lemma set_strip_rank_prefix: "set (strip_rank_prefix s) \<subseteq> set s"
proof (cases "match_rank_group s")
  case None
  then show ?thesis
    by (cases "match_r123 s") (auto simp: strip_rank_prefix_def dest: set_match_r123)
next
  case (Some t)
  then have "match_r123 (dropWhile is_space (drop 4 s)) = Some t"
    by (auto simp: match_rank_group_def split: if_splits)
  then have "set t \<subseteq> set (dropWhile is_space (drop 4 s))" by (rule set_match_r123)
  also have "\<dots> \<subseteq> set (drop 4 s)" by (auto dest: set_dropWhileD)
  also have "\<dots> \<subseteq> set s" by (rule set_drop_subset)
  finally show ?thesis using Some by (simp add: strip_rank_prefix_def)
qed

lemma set_strip_suffix_ci: "set (strip_suffix_ci suf s) \<subseteq> set s"
  by (auto simp: strip_suffix_ci_def drop_last_def dest: in_set_takeD)

lemma set_strip_first_tag: "set (strip_first_tag tags s) \<subseteq> set s"
  by (induction tags) (auto simp: drop_last_def dest: in_set_takeD)

lemma set_strip_suffixes: "set (strip_suffixes s) \<subseteq> set s"
  unfolding strip_suffixes_def
  using set_strip_first_tag set_strip_suffix_ci by (meson subset_trans)

lemma slash_notin_basename: "CHR ''/'' \<notin> set (basename s)"
  by (auto simp: basename_def dest: set_takeWhileD)

lemma basename_id:
  assumes "CHR ''/'' \<notin> set s"
  shows "basename s = s"
proof -
  have "takeWhile (\<lambda>c. c \<noteq> CHR ''/'') (rev s) = rev s"
    using assms by (auto simp: takeWhile_eq_all_conv)
  then have "rev (takeWhile (\<lambda>c. c \<noteq> CHR ''/'') (rev s)) = rev (rev s)"
    by (rule arg_cong)
  then show ?thesis by (simp only: basename_def rev_rev_ident)
qed

lemma set_space_to_underscore:
  "set (space_to_underscore s) \<subseteq> (set s - {CHR '' ''}) \<union> {CHR ''_''}"
  by (auto simp: space_to_underscore_def)

lemma space_to_underscore_id: "CHR '' '' \<notin> set s \<Longrightarrow> space_to_underscore s = s"
  by (induction s) (auto simp: space_to_underscore_def)

lemma set_tidy: "set (tidy s) \<subseteq> (set s - {CHR '' ''}) \<union> {CHR ''_''}"
proof -
  have "set (tidy s) \<subseteq> set (collapse_uu (space_to_underscore s))"
    unfolding tidy_def by (rule set_strip_by)
  also have "\<dots> \<subseteq> set (space_to_underscore s)" by (rule set_collapse_uu)
  also note set_space_to_underscore
  finally show ?thesis .
qed

lemma tidy_no_uu: "\<not> contains ''__'' (tidy s)"
  unfolding tidy_def contains_iff_occurs
  using collapse_uu_free [of "space_to_underscore s"] occurs_in_strip_by
  by (auto simp: contains_iff_occurs)

lemma tidy_idem: "tidy (tidy s) = tidy s"
proof -
  have "CHR '' '' \<notin> set (tidy s)" using set_tidy [of s] by auto
  then have "space_to_underscore (tidy s) = tidy s" by (rule space_to_underscore_id)
  moreover have "collapse_uu (tidy s) = tidy s" using tidy_no_uu by (rule collapse_uu_id)
  moreover have "strip_by is_underscore (tidy s) = tidy s"
    unfolding tidy_def by (rule strip_by_idem)
  ultimately show ?thesis by (simp add: tidy_def)
qed

lemma slash_notin_base_id: "CHR ''/'' \<notin> set (fst (normalize_id_and_ev s))"
proof -
  define b where "b = basename (strip s)"
  have "set (fst (normalize_id_and_ev s)) \<subseteq> set (strip_rank_prefix (strip_suffixes b)) \<union> {CHR ''_''}"
    using set_tidy [of "strip_rank_prefix (strip_suffixes b)"]
    by (auto simp: normalize_id_and_ev_def Let_def b_def)
  moreover have "set (strip_rank_prefix (strip_suffixes b)) \<subseteq> set b"
    using set_strip_rank_prefix set_strip_suffixes by (meson subset_trans)
  moreover have "CHR ''/'' \<notin> set b" unfolding b_def by (rule slash_notin_basename)
  ultimately show ?thesis by auto
qed

text \<open>
  C1, amended: a base id \<open>b\<close> produced by the canonicalizer is returned unchanged when
  the canonicalizer is applied to it, provided that none of the stripping steps fires on
  \<open>b\<close>: \<open>b\<close> has no white space at either end, ends in none of the extensions and
  suffixes, and starts with no rank prefix. The exposure tag of the second application is
  the one found in \<open>b\<close>.
\<close>

theorem canonical_base_id_stable:
  assumes "b = fst (normalize_id_and_ev s)"
    and "strip b = b" and "strip_suffixes b = b" and "strip_rank_prefix b = b"
  shows "normalize_id_and_ev b = (b, extract_ev_tag b)"
proof -
  have "basename b = b" unfolding assms(1) using slash_notin_base_id by (rule basename_id)
  moreover have "tidy b = b"
    unfolding assms(1) by (simp add: normalize_id_and_ev_def Let_def tidy_idem)
  ultimately show ?thesis
    using assms(2-4) by (simp add: normalize_id_and_ev_def)
qed

theorem canonical_base_id_stable_witness:
  "''Artist_Name'' = fst (normalize_id_and_ev ''R2: Artist_Name_ev-25_points.json'') \<and>
   strip ''Artist_Name'' = ''Artist_Name'' \<and>
   strip_suffixes ''Artist_Name'' = ''Artist_Name'' \<and>
   strip_rank_prefix ''Artist_Name'' = ''Artist_Name'' \<and>
   normalize_id_and_ev ''Artist_Name'' = (''Artist_Name'', extract_ev_tag ''Artist_Name'')"
proof -
  have 1: "''Artist_Name'' = fst (normalize_id_and_ev ''R2: Artist_Name_ev-25_points.json'')"
    by code_simp
  have 2: "strip ''Artist_Name'' = ''Artist_Name''" by code_simp
  have 3: "strip_suffixes ''Artist_Name'' = ''Artist_Name''" by code_simp
  have 4: "strip_rank_prefix ''Artist_Name'' = ''Artist_Name''" by code_simp
  from 1 2 3 4 canonical_base_id_stable [OF 1 2 3 4] show ?thesis by blast
qed

text \<open>
  Without the proviso the base id changes: \<open>R1_R2_x\<close> gives \<open>R2_x\<close>, which gives
  \<open>x\<close>.
\<close>

theorem canonicalize_not_idempotent:
  "normalize_id_and_ev ''R1_R2_x'' = (''R2_x'', []) \<and>
   normalize_id_and_ev ''R2_x'' = (''x'', []) \<and>
   normalize_id_and_ev (fst (normalize_id_and_ev ''R1_R2_x'')) \<noteq> normalize_id_and_ev ''R1_R2_x''"
  by code_simp

section \<open>Floats, values and exceptions\<close>


datatype pyfloat = Fin real | PInf | NInf | NaN













fun int_of_float :: "pyfloat \<Rightarrow> int option" where
  "int_of_float (Fin a) = Some (if 0 \<le> a then \<lfloor>a\<rfloor> else \<lceil>a\<rceil>)"
| "int_of_float _ = None"

datatype pyval =
    PyNone
  | PyBool bool
  | PyInt int
  | PyFloat pyfloat
  | PyStr string
  | PyList "pyval list"
  | PyTuple "pyval list"
  | PyDict "(string \<times> pyval) list"

type_synonym pydict = "string \<Rightarrow> pyval option"

fun to_float :: "(string \<Rightarrow> pyfloat option) \<Rightarrow> pyval \<Rightarrow> pyfloat option" where
  "to_float fs (PyFloat x) = Some x"
| "to_float fs (PyInt i) = Some (Fin (of_int i))"
| "to_float fs (PyBool b) = Some (Fin (if b then 1 else 0))"
| "to_float fs (PyStr s) = fs s"
| "to_float fs _ = None"

section \<open>Confidence scorer\<close>


















section \<open>Vector normalizer\<close>













section \<open>Direction extractor\<close>

text \<open>
  A record is read through its lookup function: \<open>d k\<close> is \<open>None\<close> when the key \<open>k\<close> is
  absent. The two key lists are those of the source; \<open>NESTED_ROOTS\<close> and
  \<open>NESTED_CANDIDATES\<close> are the literals of the third loop of
  \<open>extract_direction_components\<close>.
\<close>

definition DIR_KEY_CANDIDATES :: "(string \<times> string \<times> string) list" where
  "DIR_KEY_CANDIDATES =
     [(''dir_x'', ''dir_y'', ''dir_z''),
      (''dir_vx'', ''dir_vy'', ''dir_vz''),
      (''dirvx'', ''dirvy'', ''dirvz''),
      (''light_dir_x'', ''light_dir_y'', ''light_dir_z''),
      (''direction_x'', ''direction_y'', ''direction_z''),
      (''vx'', ''vy'', ''vz''),
      (''Lx'', ''Ly'', ''Lz''),
      (''L_x'', ''L_y'', ''L_z'')]"

definition SINGLE_VEC_CANDIDATES :: "string list" where
  "SINGLE_VEC_CANDIDATES =
     [''dir'', ''dir_v'', ''light_dir'', ''direction'', ''dir_vec'', ''dirv'', ''L'',
      ''light_direction'']"

definition NESTED_ROOTS :: "string list" where
  "NESTED_ROOTS = [''dir'', ''direction'', ''light_dir'', ''L'']"

definition NESTED_CANDIDATES :: "(string \<times> string \<times> string) list" where
  "NESTED_CANDIDATES =
     [(''x'', ''y'', ''z''), (''vx'', ''vy'', ''vz''), (''dir_x'', ''dir_y'', ''dir_z'')]"

type_synonym direction = "pyfloat \<times> pyfloat \<times> pyfloat \<times> string"

text \<open>\<open>_as_float\<close>\<close>

definition as_float :: "(string \<Rightarrow> pyfloat option) \<Rightarrow> pyval \<Rightarrow> pyfloat option" where
  "as_float fs v = to_float fs v"

text \<open>The three components of one candidate, all of which must convert.\<close>

definition three_floats ::
  "(string \<Rightarrow> pyfloat option) \<Rightarrow> pyval \<Rightarrow> pyval \<Rightarrow> pyval \<Rightarrow> string \<Rightarrow> direction option" where
  "three_floats fs a b c src =
     (case (as_float fs a, as_float fs b, as_float fs c) of
        (Some x, Some y, Some z) \<Rightarrow> Some (x, y, z, src)
      | _ \<Rightarrow> None)"

text \<open>The body of each of the three loops: one candidate tried on the record.\<close>

definition flat_candidate ::
  "(string \<Rightarrow> pyfloat option) \<Rightarrow> pydict \<Rightarrow> string \<times> string \<times> string \<Rightarrow> direction option" where
  "flat_candidate fs d k =
     (case k of (kx, ky, kz) \<Rightarrow>
        (case (d kx, d ky, d kz) of
           (Some a, Some b, Some c) \<Rightarrow> three_floats fs a b c (kx @ '','' @ ky @ '','' @ kz)
         | _ \<Rightarrow> None))"

definition vector_candidate ::
  "(string \<Rightarrow> pyfloat option) \<Rightarrow> pydict \<Rightarrow> string \<Rightarrow> direction option" where
  "vector_candidate fs d vk =
     (case d vk of
        Some (PyList (a # b # c # rest)) \<Rightarrow> three_floats fs a b c vk
      | Some (PyTuple (a # b # c # rest)) \<Rightarrow> three_floats fs a b c vk
      | _ \<Rightarrow> None)"

text \<open>A loop that returns at the first candidate that succeeds.\<close>

fun first_success :: "('a \<Rightarrow> 'b option) \<Rightarrow> 'a list \<Rightarrow> 'b option" where
  "first_success f [] = None"
| "first_success f (x # xs) = (case f x of Some r \<Rightarrow> Some r | None \<Rightarrow> first_success f xs)"

definition nested_candidate ::
  "(string \<Rightarrow> pyfloat option) \<Rightarrow> string \<Rightarrow> (string \<times> pyval) list \<Rightarrow>
   string \<times> string \<times> string \<Rightarrow> direction option" where
  "nested_candidate fs rt obj k =
     (case k of (kx, ky, kz) \<Rightarrow>
        (case (map_of obj kx, map_of obj ky, map_of obj kz) of
           (Some a, Some b, Some c) \<Rightarrow>
             three_floats fs a b c
               (rt @ ''.'' @ kx @ '','' @ rt @ ''.'' @ ky @ '','' @ rt @ ''.'' @ kz)
         | _ \<Rightarrow> None))"

definition nested_root ::
  "(string \<Rightarrow> pyfloat option) \<Rightarrow> pydict \<Rightarrow> string \<Rightarrow> direction option" where
  "nested_root fs d rt =
     (case d rt of
        Some (PyDict obj) \<Rightarrow> first_success (nested_candidate fs rt obj) NESTED_CANDIDATES
      | _ \<Rightarrow> None)"

definition extract_direction_components ::
  "(string \<Rightarrow> pyfloat option) \<Rightarrow> pydict \<Rightarrow>
   pyfloat option \<times> pyfloat option \<times> pyfloat option \<times> string" where
  "extract_direction_components fs d =
     (case first_success (flat_candidate fs d) DIR_KEY_CANDIDATES of
        Some (x, y, z, src) \<Rightarrow> (Some x, Some y, Some z, src)
      | None \<Rightarrow>
          (case first_success (vector_candidate fs d) SINGLE_VEC_CANDIDATES of
             Some (x, y, z, src) \<Rightarrow> (Some x, Some y, Some z, src)
           | None \<Rightarrow>
               (case first_success (nested_root fs d) NESTED_ROOTS of
                  Some (x, y, z, src) \<Rightarrow> (Some x, Some y, Some z, src)
                | None \<Rightarrow> (None, None, None, ''no_direction_keys_found''))))"

lemma first_success_None: "first_success f xs = None \<longleftrightarrow> (\<forall>x \<in> set xs. f x = None)"
  by (induction xs) (auto split: option.splits)

lemma first_success_Some:
  "first_success f xs = Some r \<longleftrightarrow>
     (\<exists>ys x zs. xs = ys @ x # zs \<and> (\<forall>y \<in> set ys. f y = None) \<and> f x = Some r)"
proof (induction xs)
  case Nil
  show ?case by simp
next
  case (Cons a xs)
  show ?case
  proof (cases "f a")
    case None
    have "(\<exists>ys x zs. a # xs = ys @ x # zs \<and> (\<forall>y \<in> set ys. f y = None) \<and> f x = Some r)
      \<longleftrightarrow> (\<exists>ys x zs. xs = ys @ x # zs \<and> (\<forall>y \<in> set ys. f y = None) \<and> f x = Some r)"
      (is "?L \<longleftrightarrow> ?R")
    proof
      assume ?L
      then obtain ys x zs where eq: "a # xs = ys @ x # zs"
        and no: "\<forall>y \<in> set ys. f y = None" and hit: "f x = Some r" by blast
      show ?R
      proof (cases ys)
        case Nil
        with eq hit None show ?thesis by simp
      next
        case (Cons b ys')
        with eq no hit show ?thesis by auto
      qed
    next
      assume ?R
      then obtain ys x zs where "xs = ys @ x # zs"
        and "\<forall>y \<in> set ys. f y = None" and "f x = Some r" by blast
      with None have "a # xs = (a # ys) @ x # zs \<and> (\<forall>y \<in> set (a # ys). f y = None) \<and> f x = Some r"
        by simp
      then show ?L by blast
    qed
    with None Cons show ?thesis by simp
  next
    case (Some q)
    have "(\<exists>ys x zs. a # xs = ys @ x # zs \<and> (\<forall>y \<in> set ys. f y = None) \<and> f x = Some r)
      \<longleftrightarrow> q = r" (is "?L \<longleftrightarrow> _")
    proof
      assume ?L
      then obtain ys x zs where eq: "a # xs = ys @ x # zs"
        and no: "\<forall>y \<in> set ys. f y = None" and hit: "f x = Some r" by blast
      show "q = r"
      proof (cases ys)
        case Nil
        with eq hit Some show ?thesis by simp
      next
        case (Cons b ys')
        with eq no Some show ?thesis by auto
      qed
    next
      assume "q = r"
      with Some have "a # xs = [] @ a # xs \<and> (\<forall>y \<in> set []. f y = None) \<and> f a = Some r"
        by simp
      then show ?L by blast
    qed
    with Some show ?thesis by simp
  qed
qed

lemma extract_flat:
  "first_success (flat_candidate fs d) DIR_KEY_CANDIDATES = Some (x, y, z, src) \<Longrightarrow>
   extract_direction_components fs d = (Some x, Some y, Some z, src)"
  by (simp add: extract_direction_components_def)

lemma extract_first_triple:
  assumes "d ''dir_x'' = Some a" "d ''dir_y'' = Some b" "d ''dir_z'' = Some c"
    and "as_float fs a = Some x" "as_float fs b = Some y" "as_float fs c = Some z"
  shows "extract_direction_components fs d = (Some x, Some y, Some z, ''dir_x,dir_y,dir_z'')"
proof -
  have "flat_candidate fs d (''dir_x'', ''dir_y'', ''dir_z'') =
      Some (x, y, z, ''dir_x,dir_y,dir_z'')"
    using assms by (simp add: flat_candidate_def three_floats_def)
  then have "first_success (flat_candidate fs d) DIR_KEY_CANDIDATES =
      Some (x, y, z, ''dir_x,dir_y,dir_z'')"
    by (simp add: DIR_KEY_CANDIDATES_def)
  then show ?thesis by (rule extract_flat)
qed

text \<open>
  C3: the flat triples are tried first, then the single vector fields, then the nested
  objects, each list in its order, and the first candidate whose three components all
  convert to floats gives the result. A record with convertible \<open>dir_x\<close>, \<open>dir_y\<close>,
  \<open>dir_z\<close> yields them, whatever else it holds (a field \<open>dir\<close> included); a record
  on which no candidate succeeds yields three nulls and \<open>no_direction_keys_found\<close>.
\<close>

theorem extraction_priority:
  "(d ''dir_x'' = Some a \<and> d ''dir_y'' = Some b \<and> d ''dir_z'' = Some c \<and>
    as_float fs a = Some x \<and> as_float fs b = Some y \<and> as_float fs c = Some z \<longrightarrow>
      extract_direction_components fs d = (Some x, Some y, Some z, ''dir_x,dir_y,dir_z'')) \<and>
   (DIR_KEY_CANDIDATES = ks @ k # ks' \<and> (\<forall>j \<in> set ks. flat_candidate fs d j = None) \<and>
    flat_candidate fs d k = Some (x, y, z, src) \<longrightarrow>
      extract_direction_components fs d = (Some x, Some y, Some z, src)) \<and>
   ((\<forall>j \<in> set DIR_KEY_CANDIDATES. flat_candidate fs d j = None) \<and>
    SINGLE_VEC_CANDIDATES = vs @ v # vs' \<and> (\<forall>j \<in> set vs. vector_candidate fs d j = None) \<and>
    vector_candidate fs d v = Some (x, y, z, src) \<longrightarrow>
      extract_direction_components fs d = (Some x, Some y, Some z, src)) \<and>
   ((\<forall>j \<in> set DIR_KEY_CANDIDATES. flat_candidate fs d j = None) \<and>
    (\<forall>j \<in> set SINGLE_VEC_CANDIDATES. vector_candidate fs d j = None) \<and>
    NESTED_ROOTS = rs @ r # rs' \<and> (\<forall>j \<in> set rs. nested_root fs d j = None) \<and>
    nested_root fs d r = Some (x, y, z, src) \<longrightarrow>
      extract_direction_components fs d = (Some x, Some y, Some z, src)) \<and>
   ((\<forall>j \<in> set DIR_KEY_CANDIDATES. flat_candidate fs d j = None) \<and>
    (\<forall>j \<in> set SINGLE_VEC_CANDIDATES. vector_candidate fs d j = None) \<and>
    (\<forall>j \<in> set NESTED_ROOTS. nested_root fs d j = None) \<longrightarrow>
      extract_direction_components fs d = (None, None, None, ''no_direction_keys_found''))"
proof (intro conjI impI)
  assume "d ''dir_x'' = Some a \<and> d ''dir_y'' = Some b \<and> d ''dir_z'' = Some c \<and>
    as_float fs a = Some x \<and> as_float fs b = Some y \<and> as_float fs c = Some z"
  then show "extract_direction_components fs d = (Some x, Some y, Some z, ''dir_x,dir_y,dir_z'')"
    by (simp add: extract_first_triple)
next
  assume "DIR_KEY_CANDIDATES = ks @ k # ks' \<and> (\<forall>j \<in> set ks. flat_candidate fs d j = None) \<and>
    flat_candidate fs d k = Some (x, y, z, src)"
  then have "first_success (flat_candidate fs d) DIR_KEY_CANDIDATES = Some (x, y, z, src)"
    unfolding first_success_Some by blast
  then show "extract_direction_components fs d = (Some x, Some y, Some z, src)"
    by (rule extract_flat)
next
  assume a: "(\<forall>j \<in> set DIR_KEY_CANDIDATES. flat_candidate fs d j = None) \<and>
    SINGLE_VEC_CANDIDATES = vs @ v # vs' \<and> (\<forall>j \<in> set vs. vector_candidate fs d j = None) \<and>
    vector_candidate fs d v = Some (x, y, z, src)"
  then have "first_success (flat_candidate fs d) DIR_KEY_CANDIDATES = None"
    by (simp add: first_success_None)
  moreover from a have "first_success (vector_candidate fs d) SINGLE_VEC_CANDIDATES = Some (x, y, z, src)"
    unfolding first_success_Some by blast
  ultimately show "extract_direction_components fs d = (Some x, Some y, Some z, src)"
    by (simp add: extract_direction_components_def)
next
  assume a: "(\<forall>j \<in> set DIR_KEY_CANDIDATES. flat_candidate fs d j = None) \<and>
    (\<forall>j \<in> set SINGLE_VEC_CANDIDATES. vector_candidate fs d j = None) \<and>
    NESTED_ROOTS = rs @ r # rs' \<and> (\<forall>j \<in> set rs. nested_root fs d j = None) \<and>
    nested_root fs d r = Some (x, y, z, src)"
  then have "first_success (flat_candidate fs d) DIR_KEY_CANDIDATES = None"
    and "first_success (vector_candidate fs d) SINGLE_VEC_CANDIDATES = None"
    by (simp_all add: first_success_None)
  moreover from a have "first_success (nested_root fs d) NESTED_ROOTS = Some (x, y, z, src)"
    unfolding first_success_Some by blast
  ultimately show "extract_direction_components fs d = (Some x, Some y, Some z, src)"
    by (simp add: extract_direction_components_def)
next
  assume "(\<forall>j \<in> set DIR_KEY_CANDIDATES. flat_candidate fs d j = None) \<and>
    (\<forall>j \<in> set SINGLE_VEC_CANDIDATES. vector_candidate fs d j = None) \<and>
    (\<forall>j \<in> set NESTED_ROOTS. nested_root fs d j = None)"
  then have "first_success (flat_candidate fs d) DIR_KEY_CANDIDATES = None"
    and "first_success (vector_candidate fs d) SINGLE_VEC_CANDIDATES = None"
    and "first_success (nested_root fs d) NESTED_ROOTS = None"
    by (simp_all add: first_success_None)
  then show "extract_direction_components fs d = (None, None, None, ''no_direction_keys_found'')"
    by (simp add: extract_direction_components_def)
qed

theorem extraction_priority_witness:
  "extract_direction_components (\<lambda>_. None)
     [''dir_x'' \<mapsto> PyFloat (Fin (6/10)), ''dir_y'' \<mapsto> PyInt 0, ''dir_z'' \<mapsto> PyFloat (Fin (8/10)),
      ''dir'' \<mapsto> PyList [PyInt 1, PyInt 0, PyInt 0]]
     = (Some (Fin (6/10)), Some (Fin 0), Some (Fin (8/10)), ''dir_x,dir_y,dir_z'') \<and>
   extract_direction_components (\<lambda>_. None)
     [''vx'' \<mapsto> PyInt 1, ''vy'' \<mapsto> PyInt 0, ''vz'' \<mapsto> PyInt 0, ''dir'' \<mapsto> PyList [PyInt 0, PyInt 0, PyInt 1]]
     = (Some (Fin 1), Some (Fin 0), Some (Fin 0), ''vx,vy,vz'') \<and>
   extract_direction_components (\<lambda>_. None)
     [''dir'' \<mapsto> PyList [PyInt 1, PyInt 0, PyInt 0]]
     = (Some (Fin 1), Some (Fin 0), Some (Fin 0), ''dir'') \<and>
   extract_direction_components (\<lambda>_. None)
     [''dir'' \<mapsto> PyDict [(''x'', PyInt 0), (''y'', PyInt 0), (''z'', PyInt 1)]]
     = (Some (Fin 0), Some (Fin 0), Some (Fin 1), ''dir.x,dir.y,dir.z'') \<and>
   extract_direction_components (\<lambda>_. None) Map.empty
     = (None, None, None, ''no_direction_keys_found'')"
proof -
  let ?fs = "\<lambda>_::string. None :: pyfloat option"
  let ?d1 = "[''dir_x'' \<mapsto> PyFloat (Fin (6/10)), ''dir_y'' \<mapsto> PyInt 0,
              ''dir_z'' \<mapsto> PyFloat (Fin (8/10)), ''dir'' \<mapsto> PyList [PyInt 1, PyInt 0, PyInt 0]]"
  let ?d2 = "[''vx'' \<mapsto> PyInt 1, ''vy'' \<mapsto> PyInt 0, ''vz'' \<mapsto> PyInt 0,
              ''dir'' \<mapsto> PyList [PyInt 0, PyInt 0, PyInt 1]]"
  let ?d3 = "[''dir'' \<mapsto> PyList [PyInt 1, PyInt 0, PyInt 0]]"
  let ?d4 = "[''dir'' \<mapsto> PyDict [(''x'', PyInt 0), (''y'', PyInt 0), (''z'', PyInt 1)]]"
  have 1: "extract_direction_components ?fs ?d1
     = (Some (Fin (6/10)), Some (Fin 0), Some (Fin (8/10)), ''dir_x,dir_y,dir_z'')"
    using extraction_priority [of ?d1 "PyFloat (Fin (6/10))" "PyInt 0" "PyFloat (Fin (8/10))" ?fs
        "Fin (6/10)" "Fin 0" "Fin (8/10)"]
    by (simp add: as_float_def)
  have ks: "DIR_KEY_CANDIDATES =
      [(''dir_x'', ''dir_y'', ''dir_z''), (''dir_vx'', ''dir_vy'', ''dir_vz''),
       (''dirvx'', ''dirvy'', ''dirvz''), (''light_dir_x'', ''light_dir_y'', ''light_dir_z''),
       (''direction_x'', ''direction_y'', ''direction_z'')] @ (''vx'', ''vy'', ''vz'') #
      [(''Lx'', ''Ly'', ''Lz''), (''L_x'', ''L_y'', ''L_z'')]"
    by (simp add: DIR_KEY_CANDIDATES_def)
  have 2: "extract_direction_components ?fs ?d2 = (Some (Fin 1), Some (Fin 0), Some (Fin 0), ''vx,vy,vz'')"
    using extraction_priority [of ?d2 _ _ _ ?fs "Fin 1" "Fin 0" "Fin 0"
        "[(''dir_x'', ''dir_y'', ''dir_z''), (''dir_vx'', ''dir_vy'', ''dir_vz''),
       (''dirvx'', ''dirvy'', ''dirvz''), (''light_dir_x'', ''light_dir_y'', ''light_dir_z''),
       (''direction_x'', ''direction_y'', ''direction_z'')]" "(''vx'', ''vy'', ''vz'')"
        "[(''Lx'', ''Ly'', ''Lz''), (''L_x'', ''L_y'', ''L_z'')]" "''vx,vy,vz''"] ks
    by (simp add: flat_candidate_def three_floats_def as_float_def)
  have vs: "SINGLE_VEC_CANDIDATES = [] @ ''dir'' #
      [''dir_v'', ''light_dir'', ''direction'', ''dir_vec'', ''dirv'', ''L'', ''light_direction'']"
    by (simp add: SINGLE_VEC_CANDIDATES_def)
  have noflat3: "\<forall>j \<in> set DIR_KEY_CANDIDATES. flat_candidate ?fs ?d3 j = None"
    by (simp add: DIR_KEY_CANDIDATES_def flat_candidate_def)
  have 3: "extract_direction_components ?fs ?d3 = (Some (Fin 1), Some (Fin 0), Some (Fin 0), ''dir'')"
    using extraction_priority [of ?d3 _ _ _ ?fs "Fin 1" "Fin 0" "Fin 0" _ _ _ "''dir''" "[]" "''dir''"
        "[''dir_v'', ''light_dir'', ''direction'', ''dir_vec'', ''dirv'', ''L'', ''light_direction'']"]
      vs noflat3
    by (simp add: vector_candidate_def three_floats_def as_float_def)
  have rs: "NESTED_ROOTS = [] @ ''dir'' # [''direction'', ''light_dir'', ''L'']"
    by (simp add: NESTED_ROOTS_def)
  have noflat4: "\<forall>j \<in> set DIR_KEY_CANDIDATES. flat_candidate ?fs ?d4 j = None"
    by (simp add: DIR_KEY_CANDIDATES_def flat_candidate_def)
  have novec4: "\<forall>j \<in> set SINGLE_VEC_CANDIDATES. vector_candidate ?fs ?d4 j = None"
    by (simp add: SINGLE_VEC_CANDIDATES_def vector_candidate_def)
  have hit4: "nested_root ?fs ?d4 ''dir'' = Some (Fin 0, Fin 0, Fin 1, ''dir.x,dir.y,dir.z'')"
    by (simp add: nested_root_def NESTED_CANDIDATES_def nested_candidate_def three_floats_def
        as_float_def)
  have 4: "extract_direction_components ?fs ?d4
      = (Some (Fin 0), Some (Fin 0), Some (Fin 1), ''dir.x,dir.y,dir.z'')"
    using extraction_priority [of ?d4 _ _ _ ?fs "Fin 0" "Fin 0" "Fin 1" _ _ _ "''dir.x,dir.y,dir.z''"
        _ _ _ "[]" "''dir''" "[''direction'', ''light_dir'', ''L'']"]
      rs noflat4 novec4 hit4
    by simp
  have 5: "extract_direction_components ?fs Map.empty = (None, None, None, ''no_direction_keys_found'')"
    using extraction_priority [of Map.empty _ _ _ ?fs]
    by (simp add: flat_candidate_def vector_candidate_def nested_root_def)
  from 1 2 3 4 5 show ?thesis by blast
qed

section \<open>Pipeline\<close>

text \<open>
  A sample is a dictionary with string keys, kept as the list of its items in insertion
  order; \<open>map_of\<close> is its lookup and \<open>dict_set\<close> the assignment \<open>d[k] = v\<close>. The
  confidence table maps \<open>(base_id, rank)\<close> to a confidence. The built-in \<open>str\<close> is
  the identity on strings; on other values it is a parameter \<open>so\<close> of the model.
\<close>

type_synonym sample = "(string \<times> pyval) list"

type_synonym conf_table = "string \<times> int \<Rightarrow> pyfloat option"

fun dict_set :: "string \<Rightarrow> pyval \<Rightarrow> sample \<Rightarrow> sample" where
  "dict_set k v [] = [(k, v)]"
| "dict_set k v ((k', v') # kvs) =
     (if k' = k then (k, v) # kvs else (k', v') # dict_set k v kvs)"

text \<open>Truth value of an object, as \<open>if not cand\<close> tests it.\<close>

definition truthy :: "pyval \<Rightarrow> bool" where
  "truthy v =
     (case v of
        PyNone \<Rightarrow> False
      | PyBool b \<Rightarrow> b
      | PyInt i \<Rightarrow> i \<noteq> 0
      | PyFloat x \<Rightarrow> x \<noteq> Fin 0
      | PyStr s \<Rightarrow> s \<noteq> []
      | PyList xs \<Rightarrow> xs \<noteq> []
      | PyTuple xs \<Rightarrow> xs \<noteq> []
      | PyDict kvs \<Rightarrow> kvs \<noteq> [])"

definition py_str :: "(pyval \<Rightarrow> string) \<Rightarrow> pyval \<Rightarrow> string" where
  "py_str so v = (case v of PyStr s \<Rightarrow> s | _ \<Rightarrow> so v)"

subsection \<open>Confidence joiner\<close>

text \<open>\<open>rk_raw = d.get("rank", 1)\<close>, then \<open>int(float(rk_raw))\<close>, and 1 on any exception.\<close>

definition sample_rank :: "(string \<Rightarrow> pyfloat option) \<Rightarrow> pydict \<Rightarrow> int" where
  "sample_rank fs d =
     (case to_float fs (case d ''rank'' of None \<Rightarrow> PyInt 1 | Some v \<Rightarrow> v) of
        None \<Rightarrow> 1
      | Some x \<Rightarrow> (case int_of_float x of None \<Rightarrow> 1 | Some i \<Rightarrow> i))"

definition get_or_empty :: "pydict \<Rightarrow> string \<Rightarrow> pyval" where
  "get_or_empty d k = (case d k of None \<Rightarrow> PyStr [] | Some v \<Rightarrow> v)"

definition candidates :: "pydict \<Rightarrow> pyval list" where
  "candidates d =
     [get_or_empty d ''painting_info'', get_or_empty d ''painting_rank_id'',
      get_or_empty d ''pose_info'', get_or_empty d ''img_path'', get_or_empty d ''file'']"

text \<open>The body of the loop over the candidates: \<open>None\<close> is \<open>continue\<close> (or a miss),
  a value is the hit before \<open>break\<close>.\<close>

definition try_candidate ::
  "(pyval \<Rightarrow> string) \<Rightarrow> conf_table \<Rightarrow> int \<Rightarrow> pyval \<Rightarrow> pyfloat option" where
  "try_candidate so tbl rk cand =
     (if \<not> truthy cand then None
      else (let base_id = fst (normalize_id_and_ev (py_str so cand))
            in if base_id = [] then None else tbl (base_id, rk)))"

definition lookup_confidence ::
  "(pyval \<Rightarrow> string) \<Rightarrow> (string \<Rightarrow> pyfloat option) \<Rightarrow> conf_table \<Rightarrow> pydict \<Rightarrow> pyfloat option" where
  "lookup_confidence so fs tbl d =
     first_success (try_candidate so tbl (sample_rank fs d)) (candidates d)"

definition join_confidence ::
  "(pyval \<Rightarrow> string) \<Rightarrow> (string \<Rightarrow> pyfloat option) \<Rightarrow> conf_table \<Rightarrow> sample \<Rightarrow> sample" where
  "join_confidence so fs tbl d =
     dict_set ''confidence''
       (case lookup_confidence so fs tbl (map_of d) of None \<Rightarrow> PyNone | Some v \<Rightarrow> PyFloat v) d"


subsection \<open>Physical direction of each sample\<close>





subsection \<open>The run\<close>





subsection \<open>Two facts used below\<close>

lemma map_of_dict_set: "map_of (dict_set k v d) = (map_of d)(k \<mapsto> v)"
  by (induction d) (auto simp: fun_eq_iff)

lemma first_success_filter:
  "first_success f xs = (case filter (\<lambda>x. f x \<noteq> None) xs of [] \<Rightarrow> None | x # _ \<Rightarrow> f x)"
  by (induction xs) (auto split: option.splits)

section \<open>The confidence joiner\<close>

text \<open>A candidate that hits: it is not empty, its canonical base id is not empty, and
  the table has an entry for that base id and the rank of the sample.\<close>

definition hits :: "(pyval \<Rightarrow> string) \<Rightarrow> conf_table \<Rightarrow> int \<Rightarrow> pyval \<Rightarrow> bool" where
  "hits so tbl rk cand =
     (truthy cand \<and> fst (normalize_id_and_ev (py_str so cand)) \<noteq> [] \<and>
      tbl (fst (normalize_id_and_ev (py_str so cand)), rk) \<noteq> None)"

lemma try_candidate_hits: "try_candidate so tbl rk c \<noteq> None \<longleftrightarrow> hits so tbl rk c"
  by (auto simp: try_candidate_def hits_def Let_def)

lemma try_candidate_value:
  "hits so tbl rk c \<Longrightarrow>
   try_candidate so tbl rk c = tbl (fst (normalize_id_and_ev (py_str so c)), rk)"
  by (auto simp: try_candidate_def hits_def Let_def)

text \<open>
  C4, amended: the candidates are \<open>painting_info\<close>, \<open>painting_rank_id\<close>,
  \<open>pose_info\<close>, \<open>img_path\<close>, \<open>file\<close>, in that order; empty candidates and
  candidates whose canonical base id is empty are skipped; the confidence is the table's
  entry for the first candidate that hits, and null when none does. The rank is the
  \<open>rank\<close> field converted to a float and truncated to an integer, and 1 when the field
  is absent or the conversion fails.
\<close>

theorem joiner_first_hit:
  "lookup_confidence so fs tbl d =
     (case filter (hits so tbl (sample_rank fs d))
             [get_or_empty d ''painting_info'', get_or_empty d ''painting_rank_id'',
              get_or_empty d ''pose_info'', get_or_empty d ''img_path'', get_or_empty d ''file''] of
        [] \<Rightarrow> None
      | c # _ \<Rightarrow> tbl (fst (normalize_id_and_ev (py_str so c)), sample_rank fs d)) \<and>
   sample_rank fs d =
     (case d ''rank'' of
        None \<Rightarrow> 1
      | Some v \<Rightarrow>
          (case to_float fs v of
             Some (Fin r) \<Rightarrow> (if 0 \<le> r then \<lfloor>r\<rfloor> else \<lceil>r\<rceil>)
           | _ \<Rightarrow> 1)) \<and>
   map_of (join_confidence so fs tbl s) ''confidence'' =
     Some (case lookup_confidence so fs tbl (map_of s) of None \<Rightarrow> PyNone | Some v \<Rightarrow> PyFloat v)"
proof (intro conjI)
  let ?rk = "sample_rank fs d"
  let ?f = "try_candidate so tbl ?rk"
  have eq: "filter (\<lambda>x. ?f x \<noteq> None) (candidates d) = filter (hits so tbl ?rk) (candidates d)"
    by (simp only: try_candidate_hits)
  show "lookup_confidence so fs tbl d =
     (case filter (hits so tbl ?rk)
             [get_or_empty d ''painting_info'', get_or_empty d ''painting_rank_id'',
              get_or_empty d ''pose_info'', get_or_empty d ''img_path'', get_or_empty d ''file''] of
        [] \<Rightarrow> None
      | c # _ \<Rightarrow> tbl (fst (normalize_id_and_ev (py_str so c)), ?rk))"
  proof (cases "filter (hits so tbl ?rk) (candidates d)")
    case Nil
    then show ?thesis
      unfolding lookup_confidence_def first_success_filter eq
      by (simp add: candidates_def)
  next
    case (Cons c cs)
    then have "c \<in> set (filter (hits so tbl ?rk) (candidates d))" by simp
    then have "hits so tbl ?rk c" by simp
    then have "?f c = tbl (fst (normalize_id_and_ev (py_str so c)), ?rk)"
      by (rule try_candidate_value)
    with Cons show ?thesis
      unfolding lookup_confidence_def first_success_filter eq
      by (simp add: candidates_def)
  qed
next
  show "sample_rank fs d =
     (case d ''rank'' of
        None \<Rightarrow> 1
      | Some v \<Rightarrow>
          (case to_float fs v of
             Some (Fin r) \<Rightarrow> (if 0 \<le> r then \<lfloor>r\<rfloor> else \<lceil>r\<rceil>)
           | _ \<Rightarrow> 1))"
    by (auto simp: sample_rank_def split: option.splits pyfloat.splits)
next
  show "map_of (join_confidence so fs tbl s) ''confidence'' =
     Some (case lookup_confidence so fs tbl (map_of s) of None \<Rightarrow> PyNone | Some v \<Rightarrow> PyFloat v)"
    by (simp add: join_confidence_def map_of_dict_set)
qed

theorem joiner_first_hit_witness:
  "lookup_confidence (\<lambda>_. []) (\<lambda>_. None)
     [(''Artist_Name'', 2) \<mapsto> Fin (3/4), ([], 2) \<mapsto> Fin (1/4)]
     [''painting_info'' \<mapsto> PyStr ''.json'',
      ''file'' \<mapsto> PyStr ''R2: Artist_Name_ev-25_points.json'',
      ''rank'' \<mapsto> PyFloat (Fin 2)] = Some (Fin (3/4)) \<and>
   sample_rank (\<lambda>_. None) [''rank'' \<mapsto> PyFloat (Fin (5/2))] = 2 \<and>
   sample_rank (\<lambda>_. None) [''rank'' \<mapsto> PyStr ''two''] = 1 \<and>
   sample_rank (\<lambda>_. None) Map.empty = 1"
proof -
  let ?so = "\<lambda>_::pyval. [] :: string"
  let ?fs = "\<lambda>_::string. None :: pyfloat option"
  let ?tbl = "[(''Artist_Name'', 2::int) \<mapsto> Fin (3/4), ([], 2) \<mapsto> Fin (1/4)]"
  let ?d = "[''painting_info'' \<mapsto> PyStr ''.json'',
      ''file'' \<mapsto> PyStr ''R2: Artist_Name_ev-25_points.json'',
      ''rank'' \<mapsto> PyFloat (Fin 2)]"
  have n1: "normalize_id_and_ev ''.json'' = ([], [])" by code_simp
  have n2: "normalize_id_and_ev ''R2: Artist_Name_ev-25_points.json'' = (''Artist_Name'', ''ev-25'')"
    by code_simp
  have n3: "normalize_id_and_ev [] = ([], [])" by code_simp
  note inst = joiner_first_hit [of ?so ?fs ?tbl ?d]
  have rk: "sample_rank ?fs ?d = 2" using inst by simp
  have 1: "lookup_confidence ?so ?fs ?tbl ?d = Some (Fin (3/4))"
    using inst by (simp add: rk hits_def get_or_empty_def truthy_def py_str_def n1 n2 n3)
  have 2: "sample_rank ?fs [''rank'' \<mapsto> PyFloat (Fin (5/2))] = 2"
    using joiner_first_hit [of ?so ?fs ?tbl "[''rank'' \<mapsto> PyFloat (Fin (5/2))]"]
    by simp
  have 3: "sample_rank ?fs [''rank'' \<mapsto> PyStr ''two''] = 1"
    using joiner_first_hit [of ?so ?fs ?tbl "[''rank'' \<mapsto> PyStr ''two'']"]
    by simp
  have 4: "sample_rank ?fs Map.empty = 1"
    using joiner_first_hit [of ?so ?fs ?tbl Map.empty]
    by simp
  from 1 2 3 4 show ?thesis by blast
qed

text \<open>
  The candidate \<open>.json\<close> is not empty and the table has an entry for its canonical
  base id (the empty string) and the rank of the sample, but it is skipped and the
  confidence is null.
\<close>

theorem joiner_counterexample:
  "truthy (PyStr ''.json'') \<and>
   [([], 1::int) \<mapsto> Fin (1/2)]
     (fst (normalize_id_and_ev (py_str (\<lambda>_. []) (PyStr ''.json''))),
      sample_rank (\<lambda>_. None) [''painting_info'' \<mapsto> PyStr ''.json'']) = Some (Fin (1/2)) \<and>
   lookup_confidence (\<lambda>_. []) (\<lambda>_. None) [([], 1) \<mapsto> Fin (1/2)]
     [''painting_info'' \<mapsto> PyStr ''.json''] = None"
proof -
  have n1: "normalize_id_and_ev ''.json'' = ([], [])" by code_simp
  have n3: "normalize_id_and_ev [] = ([], [])" by code_simp
  have rk: "sample_rank (\<lambda>_. None) [''painting_info'' \<mapsto> PyStr ''.json''] = 1"
    by (simp add: sample_rank_def)
  show ?thesis
    by (simp add: rk n1 n3 truthy_def py_str_def lookup_confidence_def candidates_def
        try_candidate_def get_or_empty_def)
qed

section \<open>Pass-through mode\<close>



section \<open>How a run ends\<close>









end
